theory Spec2Isabelle
  imports Main "HOL-Library.Sublist" "HOL-Library.Multiset" "HOL-Library.Word"
begin

section \<open>Strings\<close>

text \<open>
  A JavaScript string is a sequence of UTF-16 code units; the regular expressions of the
  program carry no \<^verbatim>\<open>u\<close> flag, so every scan works on code units.
\<close>

type_synonym codeunit = "16 word"
type_synonym jsstring = "codeunit list"

definition lit :: "string \<Rightarrow> jsstring" where
  \<comment> \<open>An ASCII literal, one code unit per character.\<close>
  "lit s = map of_char s"

definition BACKSLASH :: codeunit where
  "BACKSLASH = 0x5C"

definition DOLLAR :: codeunit where
  "DOLLAR = 0x24"

definition NEWLINE :: codeunit where
  "NEWLINE = 0x0A"

definition substring :: "jsstring \<Rightarrow> nat \<Rightarrow> nat \<Rightarrow> jsstring" where
  \<comment> \<open>\<^verbatim>\<open>String.prototype.substring\<close>: both indices are clamped to the length and
      swapped when the first is the larger.\<close>
  "substring s a b =
     (let a' = min a (length s); b' = min b (length s);
          lo = min a' b'; hi = max a' b'
      in take (hi - lo) (drop lo s))"

section \<open>Regular expressions built from literal text\<close>

definition regexSpecial :: "codeunit \<Rightarrow> bool" where
  \<comment> \<open>The character class of \<^verbatim>\<open>escapeRegex\<close>: . * + ? ^ $ { } ( ) | [ ] and the backslash.\<close>
  "regexSpecial c = (c \<in> set (lit ''.*+?^${}()|[]'' @ [BACKSLASH]))"

definition escapeRegex :: "jsstring \<Rightarrow> jsstring" where
  \<comment> \<open>Every special character is replaced by a backslash followed by itself.\<close>
  "escapeRegex s = concat (map (\<lambda>c. if regexSpecial c then [BACKSLASH, c] else [c]) s)"

text \<open>
  A pattern source that consists of ordinary characters and identity escapes (a backslash
  followed by the character meant) matches exactly one text. All pattern sources of the
  program that stand for literal text have this shape.
\<close>

fun regexLiteral :: "jsstring \<Rightarrow> jsstring" where
  "regexLiteral [] = []"
| "regexLiteral [c] = [c]"
| "regexLiteral (c # d # cs) =
     (if c = BACKSLASH then d # regexLiteral cs else c # regexLiteral (d # cs))"

fun firstAlternative :: "jsstring list \<Rightarrow> jsstring \<Rightarrow> jsstring option" where
  \<comment> \<open>The alternatives of \<^verbatim>\<open>p1|p2|...\<close> are tried in order at the current position.\<close>
  "firstAlternative [] s = None"
| "firstAlternative (p # ps) s =
     (if prefix (regexLiteral p) s then Some (regexLiteral p) else firstAlternative ps s)"

lemma firstAlternative_prefix:
  "firstAlternative ps s = Some m \<Longrightarrow> prefix m s"
  by (induction ps) (auto split: if_splits)

text \<open>
  Global replacement with a pattern that is an alternation of literal texts, the
  replacement computed from the matched text. Matches are found from left to right and do
  not overlap; after an empty match the scan steps over one code unit.
\<close>

function replaceGlobal :: "jsstring list \<Rightarrow> (jsstring \<Rightarrow> jsstring) \<Rightarrow> jsstring \<Rightarrow> jsstring" where
  "replaceGlobal ps f s =
     (case firstAlternative ps s of
        None \<Rightarrow> (case s of [] \<Rightarrow> [] | c # cs \<Rightarrow> c # replaceGlobal ps f cs)
      | Some m \<Rightarrow>
          if m = [] then f m @ (case s of [] \<Rightarrow> [] | c # cs \<Rightarrow> c # replaceGlobal ps f cs)
          else f m @ replaceGlobal ps f (drop (length m) s))"
  by pat_completeness auto
termination
proof (relation "measure (\<lambda>(ps, f, s). length s)")
  show "wf (measure (\<lambda>(ps, f, s). length s))" by simp
next
  fix ps :: "jsstring list" and f :: "jsstring \<Rightarrow> jsstring" and s :: jsstring and m
  assume "firstAlternative ps s = Some m" and "m \<noteq> []"
  then have "prefix m s" and "m \<noteq> []" by (auto dest: firstAlternative_prefix)
  then have "s \<noteq> []" by auto
  with \<open>m \<noteq> []\<close> show "((ps, f, drop (length m) s), (ps, f, s)) \<in> measure (\<lambda>(ps, f, s). length s)"
    by (cases m) auto
qed auto

declare replaceGlobal.simps [simp del]

definition replaceAll :: "jsstring \<Rightarrow> jsstring \<Rightarrow> jsstring \<Rightarrow> jsstring" where
  \<comment> \<open>\<^verbatim>\<open>input.replaceAll(searchString, replacement)\<close> for a replacement without
      dollar patterns: the search string is literal text.\<close>
  "replaceAll searchString replacement input =
     replaceGlobal [escapeRegex searchString] (\<lambda>_. replacement) input"

section \<open>The escape tables\<close>

definition BACKSLASH_PLACEHOLDER :: jsstring where
  \<comment> \<open>The constant as the source file has it: four code units.\<close>
  "BACKSLASH_PLACEHOLDER = [0xF0, 0x153, 0xB0, 0x20AC]"

definition DOLLAR_PLACEHOLDER :: jsstring where
  "DOLLAR_PLACEHOLDER = [0xF0, 0x153, 0xB0, 0x192]"

definition escapes :: "(jsstring \<times> jsstring) list" where
  \<comment> \<open>An object literal keeps its keys in insertion order.\<close>
  "escapes = [([BACKSLASH, BACKSLASH], BACKSLASH_PLACEHOLDER),
              ([BACKSLASH, DOLLAR], DOLLAR_PLACEHOLDER)]"

definition unEscapes :: "(jsstring \<times> jsstring) list" where
  "unEscapes = [(BACKSLASH_PLACEHOLDER, [BACKSLASH]),
                (DOLLAR_PLACEHOLDER, [DOLLAR])]"

definition mathUnEscapes :: "(jsstring \<times> jsstring) list" where
  "mathUnEscapes = [(BACKSLASH_PLACEHOLDER, [BACKSLASH, BACKSLASH]),
                    (DOLLAR_PLACEHOLDER, [DOLLAR])]"

definition escapedSequences :: "jsstring list" where
  "escapedSequences = map snd escapes"

definition escapeSequences :: "jsstring list" where
  "escapeSequences = map fst escapes"

definition unescapeAllPlaceholdersRegex :: "jsstring list" where
  \<comment> \<open>The alternatives of the pattern \<^verbatim>\<open>(p1|p2)\<close>.\<close>
  "unescapeAllPlaceholdersRegex = map escapeRegex escapedSequences"

definition lookupOrUndefined :: "(jsstring \<times> jsstring) list \<Rightarrow> jsstring \<Rightarrow> jsstring" where
  \<comment> \<open>A replacer function that returns \<^verbatim>\<open>table[match]\<close>; a missing entry is
      \<^verbatim>\<open>undefined\<close>, which the replacement turns into its name.\<close>
  "lookupOrUndefined table m =
     (case map_of table m of Some r \<Rightarrow> r | None \<Rightarrow> lit ''undefined'')"

datatype error = EscapeNotFound jsstring | EngineError

definition replacePredefinedEscapeSequences :: "jsstring \<Rightarrow> jsstring \<Rightarrow> error + jsstring" where
  \<comment> \<open>The table is looked up by its own keys only; properties inherited from the object
      prototype are not part of the table.\<close>
  "replacePredefinedEscapeSequences input sequenceToReplace =
     (case map_of escapes sequenceToReplace of
        None \<Rightarrow> Inl (EscapeNotFound sequenceToReplace)
      | Some replacement \<Rightarrow> Inr (replaceAll sequenceToReplace replacement input))"

definition unescapeCharacters :: "jsstring \<Rightarrow> jsstring" where
  "unescapeCharacters input =
     replaceGlobal unescapeAllPlaceholdersRegex (lookupOrUndefined unEscapes) input"

definition revertEscapedCharacters :: "jsstring \<Rightarrow> jsstring" where
  "revertEscapedCharacters input =
     replaceGlobal unescapeAllPlaceholdersRegex (lookupOrUndefined mathUnEscapes) input"

definition latexBreak :: jsstring where
  \<comment> \<open>A space, four backslashes, a space.\<close>
  "latexBreak = lit '' '' @ [BACKSLASH, BACKSLASH, BACKSLASH, BACKSLASH] @ lit '' ''"

definition convertNewlinesToLatexBreaks :: "jsstring \<Rightarrow> jsstring" where
  \<comment> \<open>The pattern matches the line feed, a single code unit.\<close>
  "convertNewlinesToLatexBreaks input = replaceGlobal [[NEWLINE]] (\<lambda>_. latexBreak) input"

section \<open>Delimiters and their patterns\<close>

datatype DelimiterType = Display | Inline

text \<open>
  Every delimiter pattern of the program has the shape
  \<^verbatim>\<open>(?:HEAD)([\s\S]*?)(?:TAIL)\<close> with the global flag, where HEAD and TAIL are
  pattern sources of literal text; a pattern is kept as these two sources.
\<close>

datatype RegExp = SpanRegExp jsstring jsstring

record Delimiter =
  d_start :: jsstring
  d_end :: jsstring
  d_type :: DelimiterType
  customRegex :: "RegExp option"

definition compiledRegex :: "Delimiter \<Rightarrow> RegExp" where
  \<comment> \<open>The field that \<^verbatim>\<open>.map\<close> adds to every entry of the table: the custom pattern
      compiled again from its source, or the pattern built from the escaped markers.\<close>
  "compiledRegex d =
     (case customRegex d of
        Some r \<Rightarrow> r
      | None \<Rightarrow> SpanRegExp (escapeRegex (d_start d)) (escapeRegex (d_end d)))"

definition delimiters :: "Delimiter list" where
  "delimiters =
     [\<lparr>d_start = lit ''$$'', d_end = lit ''$$'', d_type = Display, customRegex = None\<rparr>,
      \<lparr>d_start = lit ''$'', d_end = lit ''$'', d_type = Inline, customRegex = None\<rparr>,
      \<lparr>d_start = BACKSLASH # lit ''['', d_end = BACKSLASH # lit '']'', d_type = Display,
        customRegex = None\<rparr>,
      \<lparr>d_start = BACKSLASH # lit ''('', d_end = BACKSLASH # lit '')'', d_type = Inline,
        customRegex = None\<rparr>,
      \<lparr>d_start = BACKSLASH # lit ''begin{align*}'', d_end = BACKSLASH # lit ''end{align*}'',
        d_type = Display,
        customRegex = Some (SpanRegExp
          ([BACKSLASH, BACKSLASH] @ lit ''begin{align'' @ [BACKSLASH] @ lit ''*}'')
          ([BACKSLASH, BACKSLASH] @ lit ''end{align'' @ [BACKSLASH] @ lit ''*}''))\<rparr>,
      \<lparr>d_start = BACKSLASH # lit ''begin{align}'', d_end = BACKSLASH # lit ''end{align}'',
        d_type = Display,
        customRegex = Some (SpanRegExp
          ([BACKSLASH, BACKSLASH] @ lit ''begin{align}'')
          ([BACKSLASH, BACKSLASH] @ lit ''end{align}''))\<rparr>]"

record RegExpExecArray =
  r_index :: nat
  r_match0 :: jsstring
  r_match1 :: jsstring

fun lazyBody :: "jsstring \<Rightarrow> jsstring \<Rightarrow> nat \<Rightarrow> nat option" where
  \<comment> \<open>The lazy body grows one code unit at a time until the tail text follows; the
      result is the offset where the tail starts.\<close>
  "lazyBody closing [] pos = (if closing = [] then Some pos else None)"
| "lazyBody closing (c # cs) pos =
     (if prefix closing (c # cs) then Some pos else lazyBody closing cs (Suc pos))"

definition matchAt :: "jsstring \<Rightarrow> jsstring \<Rightarrow> jsstring \<Rightarrow> nat \<Rightarrow> (nat \<times> nat) option" where
  \<comment> \<open>An attempt at offset \<open>i\<close>, where \<open>rest\<close> is the input from \<open>i\<close> on: the start
      and the exclusive end of the match.\<close>
  "matchAt opening closing rest i =
     (if prefix opening rest
      then (case lazyBody closing (drop (length opening) rest) (i + length opening) of
              None \<Rightarrow> None
            | Some j \<Rightarrow> Some (i, j + length closing))
      else None)"

fun scanFrom :: "jsstring \<Rightarrow> jsstring \<Rightarrow> jsstring \<Rightarrow> nat \<Rightarrow> (nat \<times> nat) option" where
  \<comment> \<open>The attempts are made at each offset in turn, the leftmost success wins.\<close>
  "scanFrom opening closing [] i = matchAt opening closing [] i"
| "scanFrom opening closing (c # cs) i =
     (case matchAt opening closing (c # cs) i of
        Some r \<Rightarrow> Some r
      | None \<Rightarrow> scanFrom opening closing cs (Suc i))"

fun regexExec :: "RegExp \<Rightarrow> jsstring \<Rightarrow> nat \<Rightarrow> RegExpExecArray option" where
  \<comment> \<open>\<^verbatim>\<open>regex.exec(input)\<close> of a global pattern whose \<^verbatim>\<open>lastIndex\<close> is the third
      argument; \<open>None\<close> is \<^verbatim>\<open>null\<close>. After a match \<^verbatim>\<open>lastIndex\<close> is the end of
      the match.\<close>
  "regexExec (SpanRegExp openingSource closingSource) input lastIndex =
     (let opening = regexLiteral openingSource; closing = regexLiteral closingSource
      in if length input < lastIndex then None
         else (case scanFrom opening closing (drop lastIndex input) lastIndex of
                 None \<Rightarrow> None
               | Some (i, e) \<Rightarrow>
                   Some \<lparr>r_index = i,
                         r_match0 = substring input i e,
                         r_match1 = substring input (i + length opening) (e - length closing)\<rparr>))"

lemma lazyBody_bounds:
  "lazyBody closing s pos = Some j \<Longrightarrow> pos \<le> j \<and> j + length closing \<le> pos + length s"
proof (induction s arbitrary: pos)
  case Nil
  then show ?case by (simp split: if_splits)
next
  case (Cons c cs)
  show ?case
  proof (cases "prefix closing (c # cs)")
    case True
    with Cons.prems have "j = pos" by simp
    with True show ?thesis using prefix_length_le by fastforce
  next
    case False
    with Cons.prems have "lazyBody closing cs (Suc pos) = Some j" by simp
    from Cons.IH [OF this] show ?thesis by simp
  qed
qed

lemma matchAt_bounds:
  assumes "matchAt opening closing rest i = Some (i', e)"
  shows "i' = i \<and> i + length opening + length closing \<le> e \<and> e \<le> i + length rest"
proof -
  from assms have p: "prefix opening rest"
    by (simp add: matchAt_def split: if_splits)
  with assms obtain j where
    j: "lazyBody closing (drop (length opening) rest) (i + length opening) = Some j"
    and e: "e = j + length closing" and i: "i' = i"
    by (auto simp: matchAt_def split: option.splits)
  from p have "length opening \<le> length rest" by (rule prefix_length_le)
  with lazyBody_bounds [OF j] e i show ?thesis by simp
qed

lemma scanFrom_bounds:
  "scanFrom opening closing rest i = Some (i', e) \<Longrightarrow>
     i \<le> i' \<and> i' + length opening + length closing \<le> e \<and> e \<le> i + length rest"
proof (induction rest arbitrary: i)
  case Nil
  then have "matchAt opening closing [] i = Some (i', e)" by simp
  from matchAt_bounds [OF this] show ?case by simp
next
  case (Cons c cs)
  show ?case
  proof (cases "matchAt opening closing (c # cs) i")
    case None
    with Cons.prems have "scanFrom opening closing cs (Suc i) = Some (i', e)" by simp
    from Cons.IH [OF this] show ?thesis by simp
  next
    case (Some r)
    with Cons.prems have "matchAt opening closing (c # cs) i = Some (i', e)" by simp
    from matchAt_bounds [OF this] show ?thesis by simp
  qed
qed

lemma regexExec_bounds:
  assumes "regexExec re input lastIndex = Some found"
  shows "lastIndex \<le> r_index found \<and> r_index found + length (r_match0 found) \<le> length input"
proof -
  obtain hs ts where re: "re = SpanRegExp hs ts" by (cases re)
  from assms re have li: "lastIndex \<le> length input"
    by (simp add: Let_def split: if_splits)
  from assms re li obtain i e where
    sc: "scanFrom (regexLiteral hs) (regexLiteral ts) (drop lastIndex input) lastIndex = Some (i, e)"
    and f: "found = \<lparr>r_index = i, r_match0 = substring input i e,
              r_match1 = substring input (i + length (regexLiteral hs)) (e - length (regexLiteral ts))\<rparr>"
    by (auto simp: Let_def split: option.splits if_splits)
  from scanFrom_bounds [OF sc] li have "lastIndex \<le> i" "i \<le> e" "e \<le> length input" by auto
  with f show ?thesis by (simp add: substring_def min_def max_def)
qed

section \<open>Parsing\<close>

datatype SegmentType = Text | Math

record ParsedSegment =
  seg_type :: SegmentType
  seg_display :: bool
  seg_content :: jsstring

record Match =
  m_display :: bool
  m_content :: jsstring
  m_start :: nat
  m_end :: nat

text \<open>
  Step 1, for one delimiter: the loop \<^verbatim>\<open>while ((match = regex.exec(input)) !== null)\<close>.
  The pattern object keeps \<^verbatim>\<open>lastIndex\<close> between the calls. An empty match at
  \<^verbatim>\<open>lastIndex\<close> would leave it where it is and the loop would never end: that is the
  result \<open>None\<close>.
\<close>

function execLoop :: "Delimiter \<Rightarrow> jsstring \<Rightarrow> nat \<Rightarrow> Match list option" where
  "execLoop delimiter input lastIndex =
     (case regexExec (compiledRegex delimiter) input lastIndex of
        None \<Rightarrow> Some []
      | Some found \<Rightarrow>
          (let startIndex = r_index found;
               fullMatchContent = r_match0 found;
               contentToExtract =
                 (if customRegex delimiter \<noteq> None then fullMatchContent else r_match1 found);
               endIndex = startIndex + length fullMatchContent
           in if endIndex \<le> lastIndex then None
              else map_option
                     ((#) \<lparr>m_display = (d_type delimiter = Display),
                           m_content = contentToExtract,
                           m_start = startIndex,
                           m_end = endIndex\<rparr>)
                     (execLoop delimiter input endIndex)))"
  by pat_completeness auto
termination
proof (relation "measure (\<lambda>(d, input, lastIndex). Suc (length input) - lastIndex)")
  show "wf (measure (\<lambda>(d, input, lastIndex). Suc (length input) - lastIndex))" by simp
next
  fix delimiter :: Delimiter and input :: jsstring and lastIndex :: nat
    and found startIndex fullMatchContent contentToExtract endIndex
  assume ex: "regexExec (compiledRegex delimiter) input lastIndex = Some found"
    and "startIndex = r_index found" and "fullMatchContent = r_match0 found"
    and "endIndex = startIndex + length fullMatchContent"
    and "\<not> endIndex \<le> lastIndex"
  with regexExec_bounds [OF ex]
  show "((delimiter, input, endIndex), (delimiter, input, lastIndex))
          \<in> measure (\<lambda>(d, input, lastIndex). Suc (length input) - lastIndex)"
    by auto
qed

declare execLoop.simps [simp del]

fun allRawMatches :: "Delimiter list \<Rightarrow> jsstring \<Rightarrow> Match list option" where
  \<comment> \<open>\<^verbatim>\<open>delimiters.forEach\<close>: the matches of each delimiter are pushed in table order.\<close>
  "allRawMatches [] input = Some []"
| "allRawMatches (delimiter # rest) input =
     (case execLoop delimiter input 0 of
        None \<Rightarrow> None
      | Some ms \<Rightarrow> map_option ((@) ms) (allRawMatches rest input))"

definition compareMatches :: "Match \<Rightarrow> Match \<Rightarrow> int" where
  "compareMatches a b =
     (if m_start a \<noteq> m_start b then int (m_start a) - int (m_start b)
      else int (m_end b) - int (m_start b) - (int (m_end a) - int (m_start a)))"

text \<open>
  Step 2: \<^verbatim>\<open>Array.prototype.sort\<close> is stable. The comparison function is a total
  preorder on matches, so the sorted array is the one a stable insertion sort gives.
\<close>

fun insertMatch :: "Match \<Rightarrow> Match list \<Rightarrow> Match list" where
  "insertMatch a [] = [a]"
| "insertMatch a (b # bs) =
     (if compareMatches a b \<le> 0 then a # b # bs else b # insertMatch a bs)"

definition sortMatches :: "Match list \<Rightarrow> Match list" where
  "sortMatches ms = foldr insertMatch ms []"

fun finalMatches :: "nat \<Rightarrow> Match list \<Rightarrow> Match list" where
  \<comment> \<open>Step 3; the first argument is \<^verbatim>\<open>lastProcessedEndIndex\<close>.\<close>
  "finalMatches lastProcessedEndIndex [] = []"
| "finalMatches lastProcessedEndIndex (currentMatch # rest) =
     (if m_start currentMatch \<ge> lastProcessedEndIndex
      then currentMatch # finalMatches (m_end currentMatch) rest
      else finalMatches lastProcessedEndIndex rest)"

fun outputSegments :: "jsstring \<Rightarrow> nat \<Rightarrow> Match list \<Rightarrow> ParsedSegment list" where
  \<comment> \<open>Step 4; the second argument is \<^verbatim>\<open>previousIndex\<close>.\<close>
  "outputSegments input previousIndex [] =
     (if previousIndex < length input
      then [\<lparr>seg_type = Text, seg_display = False,
              seg_content = substring input previousIndex (length input)\<rparr>]
      else [])"
| "outputSegments input previousIndex (found # rest) =
     (if previousIndex < m_start found
      then [\<lparr>seg_type = Text, seg_display = False,
              seg_content = substring input previousIndex (m_start found)\<rparr>]
      else [])
     @ \<lparr>seg_type = Math, seg_display = m_display found, seg_content = m_content found\<rparr>
     # outputSegments input (m_end found) rest"

definition acceptedMatches :: "jsstring \<Rightarrow> Match list option" where
  \<comment> \<open>Steps 1 to 3 of \<^verbatim>\<open>parseDelimiters\<close>: the array \<^verbatim>\<open>finalMatches\<close> after the sweep.\<close>
  "acceptedMatches input =
     map_option (\<lambda>raw. finalMatches 0 (sortMatches raw)) (allRawMatches delimiters input)"

definition parseDelimiters :: "jsstring \<Rightarrow> ParsedSegment list option" where
  \<comment> \<open>\<open>None\<close>: the call does not return.\<close>
  "parseDelimiters input = map_option (outputSegments input 0) (acceptedMatches input)"

section \<open>Rendering\<close>

text \<open>
  The typesetting engine is outside the program: \<^verbatim>\<open>katex.renderToString\<close> is a
  parameter that takes the content and the display mode (the other options are constants)
  and returns the markup, or \<open>None\<close> when it throws.
\<close>

type_synonym engine = "jsstring \<Rightarrow> bool \<Rightarrow> jsstring option"

definition DQUOTE :: codeunit where
  "DQUOTE = 0x22"

definition GREATER :: codeunit where
  "GREATER = 0x3E"

definition isWhiteSpace :: "codeunit \<Rightarrow> bool" where
  \<comment> \<open>The class \<^verbatim>\<open>\s\<close>: white space and line terminators.\<close>
  "isWhiteSpace c =
     ((0x09 \<le> c \<and> c \<le> 0x0D) \<or> c = 0x20 \<or> c = 0xA0 \<or> c = 0x1680
      \<or> (0x2000 \<le> c \<and> c \<le> 0x200A) \<or> c = 0x2028 \<or> c = 0x2029 \<or> c = 0x202F
      \<or> c = 0x205F \<or> c = 0x3000 \<or> c = 0xFEFF)"

text \<open>
  The look-behind and the look-ahead of the error pattern are sequences of literal texts
  and repeated character classes. A look-around only asks whether some match exists, so
  greedy and lazy repetition are the same here.
\<close>

datatype rxItem = Chars jsstring | ZeroOrMore "codeunit \<Rightarrow> bool" | OneOrMore "codeunit \<Rightarrow> bool"

fun rxMatches :: "bool \<Rightarrow> rxItem list \<Rightarrow> jsstring \<Rightarrow> bool" where
  \<comment> \<open>Some prefix of the text matches the items; with the flag set, the whole text.\<close>
  "rxMatches whole [] s = (if whole then s = [] else True)"
| "rxMatches whole (Chars l # items) s =
     (if prefix l s then rxMatches whole items (drop (length l) s) else False)"
| "rxMatches whole (ZeroOrMore P # items) s =
     (if rxMatches whole items s then True
      else (case s of [] \<Rightarrow> False
            | c # cs \<Rightarrow> if P c then rxMatches whole (ZeroOrMore P # items) cs else False))"
| "rxMatches whole (OneOrMore P # items) s =
     (case s of [] \<Rightarrow> False
      | c # cs \<Rightarrow> if P c then rxMatches whole (ZeroOrMore P # items) cs else False)"

fun endsWithMatch :: "rxItem list \<Rightarrow> jsstring \<Rightarrow> bool" where
  \<comment> \<open>Some suffix of the text matches the items as a whole.\<close>
  "endsWithMatch items [] = rxMatches True items []"
| "endsWithMatch items (c # cs) =
     (if rxMatches True items (c # cs) then True else endsWithMatch items cs)"

definition lookBehind :: "rxItem list" where
  \<comment> \<open>\<^verbatim>\<open>(?<=<span[^>]*?\s+class="katex-error"[^>]*?\s+title=")\<close>\<close>
  "lookBehind =
     [Chars (lit ''<span''), ZeroOrMore (\<lambda>c. c \<noteq> GREATER), OneOrMore isWhiteSpace,
      Chars (lit ''class='' @ [DQUOTE] @ lit ''katex-error'' @ [DQUOTE]),
      ZeroOrMore (\<lambda>c. c \<noteq> GREATER), OneOrMore isWhiteSpace,
      Chars (lit ''title='' @ [DQUOTE])]"

definition lookAhead :: "rxItem list" where
  \<comment> \<open>\<^verbatim>\<open>(?=[^"]*"[^>]*?>)\<close>\<close>
  "lookAhead =
     [ZeroOrMore (\<lambda>c. c \<noteq> DQUOTE), Chars [DQUOTE],
      ZeroOrMore (\<lambda>c. c \<noteq> GREATER), Chars [GREATER]]"

definition katexErrorPrefix :: jsstring where
  "katexErrorPrefix = lit ''ParseError: KaTeX parse error:''"

lemma katexErrorPrefix_length: "length katexErrorPrefix = 30"
  by (simp add: katexErrorPrefix_def lit_def)

function replaceErrorPrefix :: "jsstring \<Rightarrow> jsstring \<Rightarrow> jsstring" where
  \<comment> \<open>The global replacement of the engine's error prefix; \<open>seen\<close> is the text to the
      left of the scan position, which the look-behind reads.\<close>
  "replaceErrorPrefix seen rest =
     (case rest of
        [] \<Rightarrow> []
      | c # cs \<Rightarrow>
          if prefix katexErrorPrefix rest then
            if endsWithMatch lookBehind seen then
              if rxMatches False lookAhead (drop (length katexErrorPrefix) rest)
              then lit ''LaTeX Error:''
                   @ replaceErrorPrefix (seen @ katexErrorPrefix)
                       (drop (length katexErrorPrefix) rest)
              else c # replaceErrorPrefix (seen @ [c]) cs
            else c # replaceErrorPrefix (seen @ [c]) cs
          else c # replaceErrorPrefix (seen @ [c]) cs)"
  by pat_completeness auto
termination
  by (relation "measure (\<lambda>(seen, rest). length rest)")
     (auto simp: katexErrorPrefix_length)

declare replaceErrorPrefix.simps [simp del]

definition improveErrorMessage :: "jsstring \<Rightarrow> jsstring" where
  "improveErrorMessage html = replaceErrorPrefix [] html"

fun renderSegments :: "engine \<Rightarrow> ParsedSegment list \<Rightarrow> jsstring \<Rightarrow> error + jsstring" where
  \<comment> \<open>Step 3 of \<^verbatim>\<open>renderMath\<close>; the last argument is \<^verbatim>\<open>renderedOutput\<close>.\<close>
  "renderSegments renderToString [] renderedOutput = Inr renderedOutput"
| "renderSegments renderToString (seg # rest) renderedOutput =
     (if seg_type seg = Text
      then renderSegments renderToString rest
             (renderedOutput
              @ unescapeCharacters (convertNewlinesToLatexBreaks (seg_content seg)))
      else (case renderToString (revertEscapedCharacters (seg_content seg)) (seg_display seg) of
              None \<Rightarrow> Inl EngineError
            | Some html \<Rightarrow>
                renderSegments renderToString rest
                  (renderedOutput @ improveErrorMessage html)))"

fun escapeAll :: "jsstring list \<Rightarrow> jsstring \<Rightarrow> error + jsstring" where
  \<comment> \<open>Step 1 of \<^verbatim>\<open>renderMath\<close>: \<^verbatim>\<open>escapeSequences.forEach\<close> over \<^verbatim>\<open>escapedInput\<close>.\<close>
  "escapeAll [] escapedInput = Inr escapedInput"
| "escapeAll (sequenceToEscape # rest) escapedInput =
     (case replacePredefinedEscapeSequences escapedInput sequenceToEscape of
        Inl e \<Rightarrow> Inl e
      | Inr replaced \<Rightarrow> escapeAll rest replaced)"

definition cleanedInput :: "jsstring \<Rightarrow> jsstring" where
  \<comment> \<open>The pattern \<^verbatim>\<open>regexToClean\<close> is the alternation of the two placeholders.\<close>
  "cleanedInput input = replaceGlobal (map escapeRegex escapedSequences) (\<lambda>_. []) input"

definition renderMath :: "engine \<Rightarrow> jsstring \<Rightarrow> (error + jsstring) option" where
  \<comment> \<open>\<open>Some (Inr s)\<close>: the call returns \<open>s\<close>; \<open>Some (Inl e)\<close>: it throws;
      \<open>None\<close>: it does not return.\<close>
  "renderMath renderToString input =
     (case escapeAll escapeSequences (cleanedInput input) of
        Inl e \<Rightarrow> Some (Inl e)
      | Inr escapedInput \<Rightarrow>
          (case parseDelimiters escapedInput of
             None \<Rightarrow> None
           | Some parsedInput \<Rightarrow> Some (renderSegments renderToString parsedInput [])))"

section \<open>Notions used in the statements\<close>

definition nextMatch :: "Delimiter \<Rightarrow> RegExpExecArray \<Rightarrow> Match" where
  \<comment> \<open>The match that one turn of the loop pushes.\<close>
  "nextMatch d found =
     \<lparr>m_display = (d_type d = Display),
      m_content = (if customRegex d \<noteq> None then r_match0 found else r_match1 found),
      m_start = r_index found,
      m_end = r_index found + length (r_match0 found)\<rparr>"

definition matchOf :: "Delimiter \<Rightarrow> jsstring \<Rightarrow> jsstring \<Rightarrow> jsstring \<Rightarrow> Match \<Rightarrow> bool" where
  \<comment> \<open>The match spans an opening text, a body and a closing text of the input, and its
      content and mode are those of the delimiter.\<close>
  "matchOf d opening closing input m =
     (m_start m + length opening + length closing \<le> m_end m
      \<and> m_end m \<le> length input
      \<and> prefix opening (drop (m_start m) input)
      \<and> prefix closing (drop (m_end m - length closing) input)
      \<and> m_content m =
           (if customRegex d \<noteq> None then substring input (m_start m) (m_end m)
            else substring input (m_start m + length opening) (m_end m - length closing))
      \<and> m_display m = (d_type d = Display))"

definition withSpan :: "jsstring \<Rightarrow> Match \<Rightarrow> Match" where
  \<comment> \<open>The match with the whole matched text, markers included, as its content.\<close>
  "withSpan input m = m\<lparr>m_content := substring input (m_start m) (m_end m)\<rparr>"

section \<open>Evaluation\<close>

lemmas parse_eval =
  lit_def BACKSLASH_def DOLLAR_def NEWLINE_def substring_def regexSpecial_def escapeRegex_def
  compiledRegex_def delimiters_def matchAt_def execLoop.simps compareMatches_def sortMatches_def
  acceptedMatches_def parseDelimiters_def Let_def

lemmas render_eval =
  renderMath_def cleanedInput_def escapedSequences_def escapeSequences_def escapes_def
  unEscapes_def mathUnEscapes_def unescapeAllPlaceholdersRegex_def lookupOrUndefined_def
  replacePredefinedEscapeSequences_def replaceAll_def replaceGlobal.simps
  BACKSLASH_PLACEHOLDER_def DOLLAR_PLACEHOLDER_def unescapeCharacters_def
  revertEscapedCharacters_def convertNewlinesToLatexBreaks_def latexBreak_def

section \<open>The patterns and one scan\<close>

lemma substring_take_drop:
  "a \<le> b \<Longrightarrow> b \<le> length s \<Longrightarrow> substring s a b = take (b - a) (drop a s)"
  by (simp add: substring_def min_def max_def)

lemma regexLiteral_escapeRegex: "regexLiteral (escapeRegex s) = s"
proof (induction s)
  case Nil
  then show ?case by (simp add: escapeRegex_def)
next
  case (Cons c s)
  have e: "escapeRegex (c # s) = (if regexSpecial c then [BACKSLASH, c] else [c]) @ escapeRegex s"
    by (simp add: escapeRegex_def)
  show ?case
  proof (cases "regexSpecial c")
    case True
    with e Cons show ?thesis by simp
  next
    case False
    then have "c \<noteq> BACKSLASH" by (auto simp: regexSpecial_def)
    with e False Cons show ?thesis by (cases "escapeRegex s") auto
  qed
qed

lemma lazyBody_prefix:
  "lazyBody closing s pos = Some j \<Longrightarrow> prefix closing (drop (j - pos) s)"
proof (induction s arbitrary: pos)
  case Nil
  then show ?case by (simp split: if_splits)
next
  case (Cons c cs)
  show ?case
  proof (cases "prefix closing (c # cs)")
    case True
    with Cons.prems show ?thesis by simp
  next
    case False
    with Cons.prems have l: "lazyBody closing cs (Suc pos) = Some j" by simp
    from lazyBody_bounds [OF l] have "Suc pos \<le> j" by simp
    then have "j - pos = Suc (j - Suc pos)" by simp
    with Cons.IH [OF l] show ?thesis by simp
  qed
qed

lemma matchAt_prefix:
  assumes "matchAt opening closing rest i = Some (i', e)"
  shows "prefix opening rest \<and> prefix closing (drop (e - length closing - i) rest)"
proof -
  from assms have p: "prefix opening rest"
    by (simp add: matchAt_def split: if_splits)
  with assms obtain j where
    j: "lazyBody closing (drop (length opening) rest) (i + length opening) = Some j"
    and e: "e = j + length closing"
    by (auto simp: matchAt_def split: option.splits)
  from lazyBody_bounds [OF j] have "i + length opening \<le> j" by simp
  then have "j - (i + length opening) + length opening = j - i" by simp
  with lazyBody_prefix [OF j] have "prefix closing (drop (j - i) rest)" by simp
  with e p show ?thesis by simp
qed

lemma scanFrom_prefix:
  "scanFrom opening closing rest i0 = Some (i, e) \<Longrightarrow>
     prefix opening (drop (i - i0) rest) \<and> prefix closing (drop (e - length closing - i0) rest)"
proof (induction rest arbitrary: i0)
  case Nil
  then have "matchAt opening closing [] i0 = Some (i, e)" by simp
  from matchAt_prefix [OF this] matchAt_bounds [OF this] show ?case by simp
next
  case (Cons c cs)
  show ?case
  proof (cases "matchAt opening closing (c # cs) i0")
    case None
    with Cons.prems have s: "scanFrom opening closing cs (Suc i0) = Some (i, e)" by simp
    from scanFrom_bounds [OF s] have "Suc i0 \<le> i" "Suc i0 + length closing \<le> e" by auto
    then have "i - i0 = Suc (i - Suc i0)"
      "e - length closing - i0 = Suc (e - length closing - Suc i0)" by auto
    with Cons.IH [OF s] show ?thesis by simp
  next
    case (Some r)
    with Cons.prems have m: "matchAt opening closing (c # cs) i0 = Some (i, e)" by simp
    from matchAt_prefix [OF m] matchAt_bounds [OF m] show ?thesis by simp
  qed
qed

lemma regexExec_Some:
  assumes "regexExec (SpanRegExp hs ts) input lastIndex = Some found"
  obtains i e where
    "scanFrom (regexLiteral hs) (regexLiteral ts) (drop lastIndex input) lastIndex = Some (i, e)"
    "r_index found = i" "r_match0 found = take (e - i) (drop i input)"
    "r_match1 found = take (e - length (regexLiteral ts) - (i + length (regexLiteral hs)))
                        (drop (i + length (regexLiteral hs)) input)"
    "lastIndex \<le> i" "i + length (regexLiteral hs) + length (regexLiteral ts) \<le> e"
    "e \<le> length input"
proof -
  from assms have li: "lastIndex \<le> length input"
    by (simp add: Let_def split: if_splits)
  from assms li obtain i e where
    sc: "scanFrom (regexLiteral hs) (regexLiteral ts) (drop lastIndex input) lastIndex = Some (i, e)"
    and f: "found = \<lparr>r_index = i, r_match0 = substring input i e,
              r_match1 = substring input (i + length (regexLiteral hs)) (e - length (regexLiteral ts))\<rparr>"
    by (auto simp: Let_def split: option.splits if_splits)
  from scanFrom_bounds [OF sc] li
  have b: "lastIndex \<le> i" "i + length (regexLiteral hs) + length (regexLiteral ts) \<le> e"
    "e \<le> length input" by auto
  then have "substring input i e = take (e - i) (drop i input)"
    by (intro substring_take_drop) auto
  moreover from b have "substring input (i + length (regexLiteral hs)) (e - length (regexLiteral ts))
      = take (e - length (regexLiteral ts) - (i + length (regexLiteral hs)))
          (drop (i + length (regexLiteral hs)) input)"
    by (intro substring_take_drop) auto
  ultimately show ?thesis using that [OF sc] f b by simp
qed

lemma regexExec_advance:
  assumes "regexExec (SpanRegExp hs ts) input lastIndex = Some found"
    and "regexLiteral hs \<noteq> []"
  shows "r_index found < r_index found + length (r_match0 found)"
proof -
  from assms(1) obtain i e where
    "r_index found = i" "r_match0 found = take (e - i) (drop i input)"
    "i + length (regexLiteral hs) + length (regexLiteral ts) \<le> e" "e \<le> length input"
    by (rule regexExec_Some)
  with assms(2) show ?thesis by (cases "regexLiteral hs") auto
qed

lemma execLoop_None:
  "regexExec (compiledRegex d) input lastIndex = None \<Longrightarrow> execLoop d input lastIndex = Some []"
  by (simp add: execLoop.simps)

lemma execLoop_Some:
  "regexExec (compiledRegex d) input lastIndex = Some found \<Longrightarrow>
   execLoop d input lastIndex =
     (if r_index found + length (r_match0 found) \<le> lastIndex then None
      else map_option ((#) (nextMatch d found))
             (execLoop d input (r_index found + length (r_match0 found))))"
  by (simp add: execLoop.simps Let_def nextMatch_def)

lemma execLoop_total:
  "compiledRegex d = SpanRegExp hs ts \<Longrightarrow> regexLiteral hs \<noteq> [] \<Longrightarrow>
     \<exists>ms. execLoop d input lastIndex = Some ms"
proof (induction d input lastIndex rule: execLoop.induct)
  case (1 d input lastIndex)
  show ?case
  proof (cases "regexExec (compiledRegex d) input lastIndex")
    case None
    then show ?thesis by (simp add: execLoop_None)
  next
    case (Some found)
    let ?e = "r_index found + length (r_match0 found)"
    from Some "1.prems"(1) have "regexExec (SpanRegExp hs ts) input lastIndex = Some found"
      by (simp only:)
    from regexExec_advance [OF this "1.prems"(2)] have "r_index found < ?e" .
    moreover from regexExec_bounds [OF Some] have "lastIndex \<le> r_index found" by simp
    ultimately have adv: "\<not> ?e \<le> lastIndex" by linarith
    from "1.IH" [OF Some refl refl refl refl adv "1.prems"]
    obtain rest where "execLoop d input ?e = Some rest" by blast
    with adv show ?thesis by (simp add: execLoop_Some [OF Some])
  qed
qed

lemma nextMatch_sound:
  assumes re: "compiledRegex d = SpanRegExp hs ts"
    and ex: "regexExec (compiledRegex d) input lastIndex = Some found"
  shows "matchOf d (regexLiteral hs) (regexLiteral ts) input (nextMatch d found)"
proof -
  let ?m = "nextMatch d found"
  from ex re have ex': "regexExec (SpanRegExp hs ts) input lastIndex = Some found"
    by (simp only:)
  from ex' obtain i e where
    sc: "scanFrom (regexLiteral hs) (regexLiteral ts) (drop lastIndex input) lastIndex = Some (i, e)"
    and f: "r_index found = i" "r_match0 found = take (e - i) (drop i input)"
    "r_match1 found = take (e - length (regexLiteral ts) - (i + length (regexLiteral hs)))
                        (drop (i + length (regexLiteral hs)) input)"
    and b: "lastIndex \<le> i" "i + length (regexLiteral hs) + length (regexLiteral ts) \<le> e"
    "e \<le> length input"
    by (rule regexExec_Some)
  from f b have st: "m_start ?m = i" and en: "m_end ?m = e"
    by (simp_all add: nextMatch_def)
  from b have "i - lastIndex + lastIndex = i"
    "e - length (regexLiteral ts) - lastIndex + lastIndex = e - length (regexLiteral ts)"
    by auto
  then have "drop (i - lastIndex) (drop lastIndex input) = drop i input"
    "drop (e - length (regexLiteral ts) - lastIndex) (drop lastIndex input)
       = drop (e - length (regexLiteral ts)) input"
    by (simp_all only: drop_drop)
  with scanFrom_prefix [OF sc]
  have p: "prefix (regexLiteral hs) (drop (m_start ?m) input)"
    "prefix (regexLiteral ts) (drop (m_end ?m - length (regexLiteral ts)) input)"
    by (simp_all add: st en)
  from b have "substring input i e = take (e - i) (drop i input)"
    by (intro substring_take_drop) auto
  moreover from b
  have "substring input (i + length (regexLiteral hs)) (e - length (regexLiteral ts))
      = take (e - length (regexLiteral ts) - (i + length (regexLiteral hs)))
          (drop (i + length (regexLiteral hs)) input)"
    by (intro substring_take_drop) auto
  ultimately have c: "m_content ?m =
           (if customRegex d \<noteq> None then substring input (m_start ?m) (m_end ?m)
            else substring input (m_start ?m + length (regexLiteral hs))
                   (m_end ?m - length (regexLiteral ts)))"
    using f by (simp add: st en) (simp add: nextMatch_def)
  have "m_display ?m = (d_type d = Display)" by (simp add: nextMatch_def)
  with b p c show ?thesis unfolding matchOf_def by (simp add: st en)
qed

lemma execLoop_sound:
  "compiledRegex d = SpanRegExp hs ts \<Longrightarrow> execLoop d input lastIndex = Some ms \<Longrightarrow>
     m \<in> set ms \<Longrightarrow> matchOf d (regexLiteral hs) (regexLiteral ts) input m"
proof (induction d input lastIndex arbitrary: ms rule: execLoop.induct)
  case (1 d input lastIndex)
  show ?case
  proof (cases "regexExec (compiledRegex d) input lastIndex")
    case None
    with "1.prems" show ?thesis by (simp add: execLoop_None)
  next
    case (Some found)
    let ?e = "r_index found + length (r_match0 found)"
    from "1.prems"(2) have adv: "\<not> ?e \<le> lastIndex"
      by (auto simp: execLoop_Some [OF Some] split: if_splits)
    with "1.prems"(2) obtain rest where
      rest: "execLoop d input ?e = Some rest" and ms: "ms = nextMatch d found # rest"
      by (auto simp: execLoop_Some [OF Some])
    have "matchOf d (regexLiteral hs) (regexLiteral ts) input (nextMatch d found)"
      using "1.prems"(1) Some by (rule nextMatch_sound)
    moreover have "m \<in> set rest \<Longrightarrow> matchOf d (regexLiteral hs) (regexLiteral ts) input m"
      using "1.IH" [OF Some refl refl refl refl adv "1.prems"(1) rest] .
    ultimately show ?thesis using "1.prems"(3) ms by auto
  qed
qed

section \<open>The delimiter table and the candidates\<close>

lemma delimiters_regex:
  assumes "d \<in> set delimiters"
  shows "\<exists>hs ts. compiledRegex d = SpanRegExp hs ts \<and> regexLiteral hs = d_start d
           \<and> regexLiteral ts = d_end d \<and> d_start d \<noteq> []"
  using assms
  by (auto simp: delimiters_def compiledRegex_def regexLiteral_escapeRegex lit_def BACKSLASH_def)

lemma delimiters_execLoop:
  assumes "d \<in> set delimiters"
  shows "\<exists>ms. execLoop d input lastIndex = Some ms
           \<and> (\<forall>m\<in>set ms. matchOf d (d_start d) (d_end d) input m)"
proof -
  from delimiters_regex [OF assms] obtain hs ts where
    re: "compiledRegex d = SpanRegExp hs ts" and l: "regexLiteral hs = d_start d"
    "regexLiteral ts = d_end d" and ne: "d_start d \<noteq> []"
    by blast
  from ne l have "regexLiteral hs \<noteq> []" by simp
  from execLoop_total [OF re this] obtain ms where ms: "execLoop d input lastIndex = Some ms"
    by blast
  from execLoop_sound [OF re ms] l have "\<forall>m\<in>set ms. matchOf d (d_start d) (d_end d) input m"
    by simp
  with ms show ?thesis by blast
qed

lemma allRawMatches_member:
  "allRawMatches ds input = Some ms \<Longrightarrow>
     m \<in> set ms \<longleftrightarrow> (\<exists>d\<in>set ds. \<exists>found. execLoop d input 0 = Some found \<and> m \<in> set found)"
proof (induction ds arbitrary: ms)
  case Nil
  then show ?case by simp
next
  case (Cons d ds)
  from Cons.prems obtain ms1 ms2 where
    a: "execLoop d input 0 = Some ms1" "allRawMatches ds input = Some ms2" "ms = ms1 @ ms2"
    by (auto split: option.splits)
  from Cons.IH [OF a(2)] a(1,3) show ?case by auto
qed

lemma allRawMatches_total:
  "(\<And>d. d \<in> set ds \<Longrightarrow> \<exists>ms. execLoop d input 0 = Some ms) \<Longrightarrow>
     \<exists>ms. allRawMatches ds input = Some ms"
proof (induction ds)
  case Nil
  then show ?case by simp
next
  case (Cons d ds)
  from Cons.prems [of d] obtain ms1 where "execLoop d input 0 = Some ms1" by auto
  moreover from Cons obtain ms2 where "allRawMatches ds input = Some ms2" by auto
  ultimately show ?case by simp
qed

lemma delimiters_total: "\<exists>ms. allRawMatches delimiters input = Some ms"
proof (rule allRawMatches_total)
  fix d assume "d \<in> set delimiters"
  from delimiters_execLoop [OF this] show "\<exists>ms. execLoop d input 0 = Some ms" by blast
qed

lemma delimiters_matches:
  assumes "allRawMatches delimiters input = Some ms" and "m \<in> set ms"
  shows "m_start m < m_end m \<and> m_end m \<le> length input"
proof -
  from assms obtain d found where
    d: "d \<in> set delimiters" "execLoop d input 0 = Some found" "m \<in> set found"
    by (auto simp: allRawMatches_member)
  from delimiters_execLoop [OF d(1), of input 0] d(2,3)
  have "matchOf d (d_start d) (d_end d) input m" by auto
  moreover from delimiters_regex [OF d(1)] have "d_start d \<noteq> []" by blast
  ultimately show ?thesis by (cases "d_start d") (auto simp: matchOf_def)
qed

section \<open>Sorting, the sweep and the segments\<close>

lemma compareMatches_le:
  "compareMatches a b \<le> 0 \<longleftrightarrow>
     m_start a < m_start b \<or>
     (m_start a = m_start b \<and> int (m_end b) - int (m_start b) \<le> int (m_end a) - int (m_start a))"
  by (auto simp: compareMatches_def)

lemma compareMatches_trans:
  "compareMatches a b \<le> 0 \<Longrightarrow> compareMatches b c \<le> 0 \<Longrightarrow> compareMatches a c \<le> 0"
  unfolding compareMatches_le by auto

lemma compareMatches_total:
  "\<not> compareMatches a b \<le> 0 \<Longrightarrow> compareMatches b a \<le> 0"
  unfolding compareMatches_le by auto

lemma insertMatch_mset: "mset (insertMatch a bs) = add_mset a (mset bs)"
  by (induction bs) auto

lemma insertMatch_set: "set (insertMatch a bs) = insert a (set bs)"
  by (induction bs) auto

lemma insertMatch_sorted:
  "sorted_wrt (\<lambda>a b. compareMatches a b \<le> 0) bs \<Longrightarrow>
     sorted_wrt (\<lambda>a b. compareMatches a b \<le> 0) (insertMatch a bs)"
proof (induction bs)
  case Nil
  then show ?case by simp
next
  case (Cons b bs)
  show ?case
  proof (cases "compareMatches a b \<le> 0")
    case True
    with Cons.prems show ?thesis by (auto intro: compareMatches_trans)
  next
    case False
    with Cons show ?thesis
      by (auto simp: insertMatch_set dest: compareMatches_total)
  qed
qed

lemma sortMatches_mset: "mset (sortMatches ms) = mset ms"
  by (induction ms) (simp_all add: sortMatches_def insertMatch_mset)

lemma sortMatches_set: "set (sortMatches ms) = set ms"
  by (induction ms) (simp_all add: sortMatches_def insertMatch_set)

lemma sortMatches_sorted: "sorted_wrt (\<lambda>a b. compareMatches a b \<le> 0) (sortMatches ms)"
  by (induction ms) (simp_all add: sortMatches_def insertMatch_sorted)

lemma finalMatches_subset: "set (finalMatches c ms) \<subseteq> set ms"
  by (induction ms arbitrary: c) auto

lemma finalMatches_chain:
  "(\<And>m. m \<in> set ms \<Longrightarrow> m_start m \<le> m_end m) \<Longrightarrow>
     sorted_wrt (\<lambda>a b. m_end a \<le> m_start b) (finalMatches c ms)
     \<and> (\<forall>m\<in>set (finalMatches c ms). c \<le> m_start m)"
proof (induction ms arbitrary: c)
  case Nil
  then show ?case by simp
next
  case (Cons m ms)
  have IH: "sorted_wrt (\<lambda>a b. m_end a \<le> m_start b) (finalMatches c' ms)
     \<and> (\<forall>m\<in>set (finalMatches c' ms). c' \<le> m_start m)" for c'
    using Cons.IH Cons.prems by simp
  have "m_start m \<le> m_end m" using Cons.prems by simp
  then show ?case using IH [of c] IH [of "m_end m"] by auto
qed

lemma withSpan_simps:
  "m_start (withSpan input m) = m_start m"
  "m_end (withSpan input m) = m_end m"
  "m_display (withSpan input m) = m_display m"
  "m_content (withSpan input m) = substring input (m_start m) (m_end m)"
  by (simp_all add: withSpan_def)

lemma outputSegments_cover:
  assumes "sorted_wrt (\<lambda>a b. m_end a \<le> m_start b) ms"
    and "\<And>m. m \<in> set ms \<Longrightarrow> prev \<le> m_start m \<and> m_start m \<le> m_end m \<and> m_end m \<le> length input"
  shows "concat (map seg_content (outputSegments input prev (map (withSpan input) ms)))
           = drop prev input"
  using assms
proof (induction ms arbitrary: prev)
  case Nil
  then show ?case by (simp add: substring_def min_def max_def)
next
  case (Cons m ms)
  from Cons.prems(2) [of m]
  have b: "prev \<le> m_start m" "m_start m \<le> m_end m" "m_end m \<le> length input"
    by simp_all
  have rest: "concat (map seg_content (outputSegments input (m_end m) (map (withSpan input) ms)))
                = drop (m_end m) input"
  proof (rule Cons.IH)
    from Cons.prems(1) show "sorted_wrt (\<lambda>a b. m_end a \<le> m_start b) ms" by simp
  next
    fix m' assume "m' \<in> set ms"
    with Cons.prems
    show "m_end m \<le> m_start m' \<and> m_start m' \<le> m_end m' \<and> m_end m' \<le> length input"
      by auto
  qed
  have sp: "substring input (m_start m) (m_end m)
              = take (m_end m - m_start m) (drop (m_start m) input)"
    using b by (intro substring_take_drop) auto
  have tx: "substring input prev (m_start m) = take (m_start m - prev) (drop prev input)"
    using b by (intro substring_take_drop) auto
  have j1: "take (m_end m - m_start m) (drop (m_start m) input) @ drop (m_end m) input
              = drop (m_start m) input"
    using b by (metis append_take_drop_id drop_drop le_add_diff_inverse2)
  have j2: "take (m_start m - prev) (drop prev input) @ drop (m_start m) input = drop prev input"
    using b by (metis append_take_drop_id drop_drop le_add_diff_inverse2)
  show ?case
  proof (cases "prev < m_start m")
    case True
    then show ?thesis using rest sp tx j1 j2 by (simp add: withSpan_simps)
  next
    case False
    with b have "prev = m_start m" by simp
    then show ?thesis using rest sp j1 by (simp add: withSpan_simps)
  qed
qed

lemma outputSegments_withSpan:
  "map (\<lambda>seg. (seg_type seg, seg_display seg))
       (outputSegments input prev (map (withSpan input) ms))
     = map (\<lambda>seg. (seg_type seg, seg_display seg)) (outputSegments input prev ms)
   \<and> filter (\<lambda>seg. seg_type seg = Text) (outputSegments input prev (map (withSpan input) ms))
     = filter (\<lambda>seg. seg_type seg = Text) (outputSegments input prev ms)"
  by (induction ms arbitrary: prev) (simp_all add: withSpan_simps)

lemma acceptedMatches_facts:
  "\<exists>raw. allRawMatches delimiters input = Some raw
     \<and> acceptedMatches input = Some (finalMatches 0 (sortMatches raw))
     \<and> parseDelimiters input = Some (outputSegments input 0 (finalMatches 0 (sortMatches raw)))
     \<and> (\<forall>m\<in>set raw. m_start m < m_end m \<and> m_end m \<le> length input)"
proof -
  from delimiters_total obtain raw where r: "allRawMatches delimiters input = Some raw" by blast
  have "acceptedMatches input = Some (finalMatches 0 (sortMatches raw))"
    by (simp add: acceptedMatches_def r)
  moreover from this
  have "parseDelimiters input = Some (outputSegments input 0 (finalMatches 0 (sortMatches raw)))"
    by (simp add: parseDelimiters_def)
  moreover have "\<forall>m\<in>set raw. m_start m < m_end m \<and> m_end m \<le> length input"
    using delimiters_matches [OF r] by blast
  ultimately show ?thesis using r by blast
qed

lemma accepted_chain:
  assumes "acceptedMatches input = Some fm"
  shows "sorted_wrt (\<lambda>a b. m_end a \<le> m_start b) fm"
    and "\<And>m. m \<in> set fm \<Longrightarrow> m_start m < m_end m \<and> m_end m \<le> length input"
proof -
  obtain raw where r: "acceptedMatches input = Some (finalMatches 0 (sortMatches raw))"
    "\<And>m. m \<in> set raw \<Longrightarrow> m_start m < m_end m \<and> m_end m \<le> length input"
    using acceptedMatches_facts [of input] by blast
  with assms have fm: "fm = finalMatches 0 (sortMatches raw)" by simp
  have wf: "m \<in> set (sortMatches raw) \<Longrightarrow> m_start m \<le> m_end m" for m
    using r(2) [of m] by (simp add: sortMatches_set)
  from finalMatches_chain [of "sortMatches raw" 0, OF wf] fm
  show "sorted_wrt (\<lambda>a b. m_end a \<le> m_start b) fm" by simp
  fix m assume "m \<in> set fm"
  with fm finalMatches_subset [of 0 "sortMatches raw"] have "m \<in> set raw"
    by (auto simp: sortMatches_set)
  then show "m_start m < m_end m \<and> m_end m \<le> length input" by (rule r(2))
qed

lemma chain_unique:
  assumes ch: "sorted_wrt (\<lambda>a b. m_end a \<le> m_start b) fm"
    and pos: "\<And>m. m \<in> set fm \<Longrightarrow> m_start m < m_end m"
    and a: "a \<in> set fm" and c: "c \<in> set fm"
    and inside: "m_start a \<le> m_start c" "m_start c < m_end a"
  shows "c = a"
proof -
  from a c obtain i j where ij: "i < length fm" "fm ! i = a" "j < length fm" "fm ! j = c"
    by (auto simp: in_set_conv_nth)
  have "\<not> i < j"
  proof
    assume "i < j"
    with ch ij have "m_end a \<le> m_start c" by (auto simp: sorted_wrt_iff_nth_less)
    with inside show False by simp
  qed
  moreover have "\<not> j < i"
  proof
    assume "j < i"
    with ch ij have "m_end c \<le> m_start a" by (auto simp: sorted_wrt_iff_nth_less)
    with pos [OF c] inside show False by simp
  qed
  ultimately have "i = j" by simp
  with ij show ?thesis by simp
qed

section \<open>Escaping and rendering\<close>

lemma replaceAll_Nil: "pat \<noteq> [] \<Longrightarrow> replaceAll pat rep [] = []"
  by (cases pat) (simp_all add: replaceAll_def replaceGlobal.simps regexLiteral_escapeRegex)

lemma replaceAll_Cons:
  "pat \<noteq> [] \<Longrightarrow> replaceAll pat rep (c # cs) =
     (if prefix pat (c # cs) then rep @ replaceAll pat rep (drop (length pat) (c # cs))
      else c # replaceAll pat rep cs)"
  by (subst replaceAll_def, subst replaceGlobal.simps)
     (simp add: regexLiteral_escapeRegex replaceAll_def)

lemma replaceAll_skip:
  "b \<notin> set u \<Longrightarrow> replaceAll (b # p) rep (u @ t) = u @ replaceAll (b # p) rep t"
  by (induction u) (auto simp: replaceAll_Cons)

lemma escapeAll_forward:
  "escapeAll escapeSequences s =
     Inr (replaceAll [BACKSLASH, DOLLAR] DOLLAR_PLACEHOLDER
           (replaceAll [BACKSLASH, BACKSLASH] BACKSLASH_PLACEHOLDER s))"
  by (simp add: escapeSequences_def escapes_def replacePredefinedEscapeSequences_def
      BACKSLASH_def DOLLAR_def)

lemma escapeAll_backward:
  "escapeAll (rev escapeSequences) s =
     Inr (replaceAll [BACKSLASH, BACKSLASH] BACKSLASH_PLACEHOLDER
           (replaceAll [BACKSLASH, DOLLAR] DOLLAR_PLACEHOLDER s))"
  by (simp add: escapeSequences_def escapes_def replacePredefinedEscapeSequences_def
      BACKSLASH_def DOLLAR_def)

lemma placeholders_plain:
  "BACKSLASH \<notin> set BACKSLASH_PLACEHOLDER" "BACKSLASH \<notin> set DOLLAR_PLACEHOLDER"
  by (simp_all add: BACKSLASH_def BACKSLASH_PLACEHOLDER_def DOLLAR_PLACEHOLDER_def)

lemma swap_escapes:
  "\<not> sublist [BACKSLASH, BACKSLASH, DOLLAR] s \<Longrightarrow>
   replaceAll [BACKSLASH, DOLLAR] DOLLAR_PLACEHOLDER
     (replaceAll [BACKSLASH, BACKSLASH] BACKSLASH_PLACEHOLDER s)
   = replaceAll [BACKSLASH, BACKSLASH] BACKSLASH_PLACEHOLDER
       (replaceAll [BACKSLASH, DOLLAR] DOLLAR_PLACEHOLDER s)"
proof (induction s rule: regexLiteral.induct)
  case 1
  then show ?case by (simp add: replaceAll_Nil)
next
  case (2 c)
  then show ?case by (simp add: replaceAll_Cons replaceAll_Nil)
next
  case (3 c d cs)
  have bd: "BACKSLASH \<noteq> DOLLAR" by (simp add: BACKSLASH_def DOLLAR_def)
  from "3.prems" have n1: "\<not> sublist [BACKSLASH, BACKSLASH, DOLLAR] (d # cs)"
    and n2: "\<not> sublist [BACKSLASH, BACKSLASH, DOLLAR] cs"
    by (auto simp: sublist_Cons_right)
  show ?case
  proof (cases "c = BACKSLASH")
    case False
    with "3.IH"(2) n1 show ?thesis by (simp add: replaceAll_Cons)
  next
    case True
    note IH = "3.IH"(1) [OF True n2]
    show ?thesis
    proof (cases "d = BACKSLASH")
      case d: True
      from "3.prems" True d have nd: "\<not> prefix [DOLLAR] cs"
        by (auto simp: sublist_Cons_right)
      then have "replaceAll [BACKSLASH, DOLLAR] DOLLAR_PLACEHOLDER (BACKSLASH # cs)
                   = BACKSLASH # replaceAll [BACKSLASH, DOLLAR] DOLLAR_PLACEHOLDER cs"
        by (simp add: replaceAll_Cons)
      with True d bd IH show ?thesis
        by (simp add: replaceAll_Cons replaceAll_skip placeholders_plain)
    next
      case d: False
      with True bd IH show ?thesis
        by (cases "d = DOLLAR")
           (simp_all add: replaceAll_Cons replaceAll_skip placeholders_plain)
    qed
  qed
qed

lemma renderSegments_total:
  "(\<And>content display. renderToString content display \<noteq> None) \<Longrightarrow>
     \<exists>out. renderSegments renderToString segs acc = Inr out"
proof (induction segs arbitrary: acc)
  case Nil
  then show ?case by simp
next
  case (Cons seg segs)
  show ?case
  proof (cases "seg_type seg = Text")
    case True
    with Cons show ?thesis by simp
  next
    case False
    from Cons.prems obtain html where
      "renderToString (revertEscapedCharacters (seg_content seg)) (seg_display seg) = Some html"
      by fastforce
    with False Cons show ?thesis by simp
  qed
qed

lemma renderSegments_error:
  "renderSegments renderToString segs acc = Inl e \<Longrightarrow> e = EngineError"
  by (induction segs arbitrary: acc) (auto split: if_splits option.splits)

lemma escapes_keys:
  "q \<in> set escapeSequences \<Longrightarrow> \<exists>y. replacePredefinedEscapeSequences x q = Inr y"
  by (auto simp: escapeSequences_def escapes_def replacePredefinedEscapeSequences_def
      BACKSLASH_def DOLLAR_def)

lemma raw_matchOf:
  assumes "allRawMatches delimiters input = Some raw" and "m \<in> set raw"
  shows "\<exists>d\<in>set delimiters. matchOf d (d_start d) (d_end d) input m"
proof -
  from assms obtain d found where
    d: "d \<in> set delimiters" "execLoop d input 0 = Some found" "m \<in> set found"
    by (auto simp: allRawMatches_member)
  from delimiters_execLoop [OF d(1), of input 0] d(2,3)
  have "matchOf d (d_start d) (d_end d) input m" by auto
  with d(1) show ?thesis by blast
qed

lemma finalMatches_prefers:
  assumes "sorted_wrt (\<lambda>a b. compareMatches a b \<le> 0) ms"
    and "\<And>m. m \<in> set ms \<Longrightarrow> m_start m < m_end m"
    and "a \<in> set ms" and "m_start a = m_start b" and "m_end b < m_end a"
  shows "b \<notin> set (finalMatches c ms)"
  using assms(1,2,3)
proof (induction ms arbitrary: c)
  case Nil
  then show ?case by simp
next
  case (Cons x xs)
  have le: "m' \<in> set xs \<Longrightarrow> m_start m' \<le> m_end m'" for m'
    using Cons.prems(2) [of m'] by simp
  have lower: "m' \<in> set (finalMatches c' xs) \<Longrightarrow> c' \<le> m_start m'" for m' c'
    using finalMatches_chain [of xs c', OF le] by blast
  show ?case
  proof (cases "x = a")
    case True
    have pa: "m_start a < m_end a" using Cons.prems(2) [of a] True by simp
    have "b \<notin> set (finalMatches c' xs)" if "m_start a < c'" for c'
      using lower [of b c'] that assms(4) by auto
    with pa True assms(4,5) show ?thesis by auto
  next
    case False
    with Cons.prems have ax: "a \<in> set xs" by simp
    with Cons.prems(1) have "compareMatches x a \<le> 0" by simp
    with assms(4,5) have "x \<noteq> b" by (auto simp: compareMatches_le)
    moreover have "b \<notin> set (finalMatches c' xs)" for c'
      using Cons.IH [of c'] Cons.prems ax by simp
    ultimately show ?thesis by simp
  qed
qed

lemma convertNewlines_Nil: "convertNewlinesToLatexBreaks [] = []"
  by (simp add: convertNewlinesToLatexBreaks_def replaceGlobal.simps)

lemma convertNewlines_Cons:
  "convertNewlinesToLatexBreaks (c # cs) =
     (if c = NEWLINE then latexBreak else [c]) @ convertNewlinesToLatexBreaks cs"
  by (subst convertNewlinesToLatexBreaks_def, subst replaceGlobal.simps)
     (simp add: convertNewlinesToLatexBreaks_def)

lemma prefix_drop_sublist:
  assumes "prefix p (drop j s)" and "k \<le> j"
  shows "sublist p (drop k s)"
proof -
  from assms(2) have "drop j s = drop (j - k) (drop k s)" by simp
  with assms(1) obtain ss where "drop (j - k) (drop k s) = p @ ss" by (auto simp: prefix_def)
  then have "drop k s = take (j - k) (drop k s) @ p @ ss"
    by (metis append_take_drop_id)
  then show ?thesis unfolding sublist_def by blast
qed

lemma no_candidates:
  assumes h: "\<forall>d\<in>set delimiters. \<forall>i. prefix (d_start d) (drop i input) \<longrightarrow>
                \<not> sublist (d_end d) (drop (i + length (d_start d)) input)"
  shows "allRawMatches delimiters input = Some []"
proof -
  from delimiters_total obtain raw where r: "allRawMatches delimiters input = Some raw" by blast
  have "m \<notin> set raw" for m
  proof
    assume "m \<in> set raw"
    from raw_matchOf [OF r this] obtain d where
      d: "d \<in> set delimiters" and m: "matchOf d (d_start d) (d_end d) input m" by blast
    from m have p: "prefix (d_start d) (drop (m_start m) input)"
      and e: "prefix (d_end d) (drop (m_end m - length (d_end d)) input)"
      and b: "m_start m + length (d_start d) \<le> m_end m - length (d_end d)"
      by (auto simp: matchOf_def)
    from e b have "sublist (d_end d) (drop (m_start m + length (d_start d)) input)"
      by (rule prefix_drop_sublist)
    with h d p show False by blast
  qed
  then have "raw = []" by (cases raw) auto
  with r show ?thesis by simp
qed

section \<open>The segments and the input\<close>

text \<open>
  Claim C1 says that the concatenation of the \<^verbatim>\<open>content\<close> fields of the segments
  of \<^verbatim>\<open>parseDelimiters\<close> is the input. For the three-character input \<^verbatim>\<open>$a$\<close> the
  only segment is an inline math segment with content \<^verbatim>\<open>a\<close>: the two markers are not
  part of any content.
\<close>

theorem segments_concat_counterexample:
  "parseDelimiters (lit ''$a$'')
     = Some [\<lparr>seg_type = Math, seg_display = False, seg_content = lit ''a''\<rparr>]
   \<and> concat (map seg_content [\<lparr>seg_type = Math, seg_display = False, seg_content = lit ''a''\<rparr>])
     \<noteq> lit ''$a$''"
  by (simp add: parse_eval)

text \<open>
  Claim C1, amended: for every input the call returns, and the segments cover the input
  without gaps, overlaps or reordering once each math segment is counted with the whole text
  that its match spans. The concatenation, in order, of the contents of the text segments
  and of the spans \<^verbatim>\<open>input.substring(start, end)\<close> of the accepted matches is the
  input. The segment list with the spans has the kinds, the modes and the text segments of
  the list that is returned. The content of an accepted match is its span without the two
  markers for a bracket delimiter and the whole span for an align environment.
\<close>

theorem segments_cover_input:
  "\<exists>fm. acceptedMatches input = Some fm
     \<and> parseDelimiters input = Some (outputSegments input 0 fm)
     \<and> concat (map seg_content (outputSegments input 0 (map (withSpan input) fm))) = input
     \<and> map (\<lambda>seg. (seg_type seg, seg_display seg))
            (outputSegments input 0 (map (withSpan input) fm))
         = map (\<lambda>seg. (seg_type seg, seg_display seg)) (outputSegments input 0 fm)
     \<and> filter (\<lambda>seg. seg_type seg = Text) (outputSegments input 0 (map (withSpan input) fm))
         = filter (\<lambda>seg. seg_type seg = Text) (outputSegments input 0 fm)
     \<and> (\<forall>m\<in>set fm. \<exists>d\<in>set delimiters. matchOf d (d_start d) (d_end d) input m)"
proof -
  obtain raw where r: "allRawMatches delimiters input = Some raw"
    "acceptedMatches input = Some (finalMatches 0 (sortMatches raw))"
    "parseDelimiters input = Some (outputSegments input 0 (finalMatches 0 (sortMatches raw)))"
    using acceptedMatches_facts [of input] by blast
  let ?fm = "finalMatches 0 (sortMatches raw)"
  have "concat (map seg_content (outputSegments input 0 (map (withSpan input) ?fm)))
          = drop 0 input"
  proof (rule outputSegments_cover)
    show "sorted_wrt (\<lambda>a b. m_end a \<le> m_start b) ?fm" using accepted_chain(1) [OF r(2)] .
    fix m assume "m \<in> set ?fm"
    from accepted_chain(2) [OF r(2) this]
    show "0 \<le> m_start m \<and> m_start m \<le> m_end m \<and> m_end m \<le> length input" by simp
  qed
  moreover have "\<exists>d\<in>set delimiters. matchOf d (d_start d) (d_end d) input m"
    if "m \<in> set ?fm" for m
  proof (rule raw_matchOf [OF r(1)])
    from that finalMatches_subset [of 0 "sortMatches raw"] show "m \<in> set raw"
      by (auto simp: sortMatches_set)
  qed
  ultimately show ?thesis using r outputSegments_withSpan [of input 0 ?fm] by simp
qed

theorem segments_cover_input_witness:
  "acceptedMatches (lit ''x $a$'')
     = Some [\<lparr>m_display = False, m_content = lit ''a'', m_start = 2, m_end = 5\<rparr>]
   \<and> parseDelimiters (lit ''x $a$'')
     = Some [\<lparr>seg_type = Text, seg_display = False, seg_content = lit ''x ''\<rparr>,
             \<lparr>seg_type = Math, seg_display = False, seg_content = lit ''a''\<rparr>]
   \<and> concat (map seg_content (outputSegments (lit ''x $a$'') 0
        (map (withSpan (lit ''x $a$'')) (the (acceptedMatches (lit ''x $a$'')))))) = lit ''x $a$''
   \<and> matchOf (delimiters ! 1) (lit ''$'') (lit ''$'') (lit ''x $a$'')
         \<lparr>m_display = False, m_content = lit ''a'', m_start = 2, m_end = 5\<rparr>"
proof -
  have a: "acceptedMatches (lit ''x $a$'')
     = Some [\<lparr>m_display = False, m_content = lit ''a'', m_start = 2, m_end = 5\<rparr>]"
    by (simp add: parse_eval)
  have p: "parseDelimiters (lit ''x $a$'')
     = Some [\<lparr>seg_type = Text, seg_display = False, seg_content = lit ''x ''\<rparr>,
             \<lparr>seg_type = Math, seg_display = False, seg_content = lit ''a''\<rparr>]"
    by (simp add: parse_eval)
  have m: "matchOf (delimiters ! 1) (lit ''$'') (lit ''$'') (lit ''x $a$'')
         \<lparr>m_display = False, m_content = lit ''a'', m_start = 2, m_end = 5\<rparr>"
    by (simp add: matchOf_def delimiters_def lit_def substring_def)
  from segments_cover_input [of "lit ''x $a$''"] a p m show ?thesis by auto
qed

section \<open>The order of the two escape substitutions\<close>

text \<open>
  Claim C2 says that replacing backslash-backslash first and backslash-dollar second gives
  the same string as the opposite order. For the three-character input backslash, backslash,
  dollar the program's order gives the backslash placeholder followed by a dollar sign, the
  opposite order a backslash followed by the dollar placeholder.
\<close>

theorem escape_order_counterexample:
  "escapeAll escapeSequences [BACKSLASH, BACKSLASH, DOLLAR]
     = Inr (BACKSLASH_PLACEHOLDER @ [DOLLAR])
   \<and> escapeAll (rev escapeSequences) [BACKSLASH, BACKSLASH, DOLLAR]
     = Inr (BACKSLASH # DOLLAR_PLACEHOLDER)
   \<and> BACKSLASH_PLACEHOLDER @ [DOLLAR] \<noteq> BACKSLASH # DOLLAR_PLACEHOLDER"
  by (simp add: render_eval parse_eval)

text \<open>
  Claim C2, amended: the program replaces every backslash-backslash first and every
  backslash-dollar second, and this order matters. On every input that does not contain
  the three characters backslash, backslash, dollar in a row the opposite order gives the
  same string.
\<close>

theorem escape_order_without_clash:
  "escapeAll escapeSequences s =
     Inr (replaceAll [BACKSLASH, DOLLAR] DOLLAR_PLACEHOLDER
           (replaceAll [BACKSLASH, BACKSLASH] BACKSLASH_PLACEHOLDER s))
   \<and> (\<not> sublist [BACKSLASH, BACKSLASH, DOLLAR] s \<longrightarrow>
        escapeAll (rev escapeSequences) s = escapeAll escapeSequences s)"
  using swap_escapes [of s] by (simp add: escapeAll_forward escapeAll_backward)

theorem escape_order_without_clash_witness:
  "\<not> sublist [BACKSLASH, BACKSLASH, DOLLAR] (lit ''a'' @ [BACKSLASH, DOLLAR, BACKSLASH, BACKSLASH])
   \<and> escapeAll (rev escapeSequences) (lit ''a'' @ [BACKSLASH, DOLLAR, BACKSLASH, BACKSLASH])
     = Inr (lit ''a'' @ DOLLAR_PLACEHOLDER @ BACKSLASH_PLACEHOLDER)
   \<and> escapeAll escapeSequences (lit ''a'' @ [BACKSLASH, DOLLAR, BACKSLASH, BACKSLASH])
     = Inr (lit ''a'' @ DOLLAR_PLACEHOLDER @ BACKSLASH_PLACEHOLDER)"
proof -
  have h: "\<not> sublist [BACKSLASH, BACKSLASH, DOLLAR]
               (lit ''a'' @ [BACKSLASH, DOLLAR, BACKSLASH, BACKSLASH])"
    by (simp add: sublist_code lit_def BACKSLASH_def DOLLAR_def)
  have "escapeAll (rev escapeSequences) (lit ''a'' @ [BACKSLASH, DOLLAR, BACKSLASH, BACKSLASH])
     = Inr (lit ''a'' @ DOLLAR_PLACEHOLDER @ BACKSLASH_PLACEHOLDER)"
    by (simp add: render_eval parse_eval)
  with h escape_order_without_clash [of "lit ''a'' @ [BACKSLASH, DOLLAR, BACKSLASH, BACKSLASH]"]
  show ?thesis by simp
qed

section \<open>No exception from the entry point\<close>

text \<open>
  Claim C3: when the typesetting engine never throws, \<^verbatim>\<open>renderMath\<close> returns a string
  for every input. Whatever the engine does, the call never throws the error of
  \<^verbatim>\<open>replacePredefinedEscapeSequences\<close>: the sequences that \<^verbatim>\<open>renderMath\<close> passes are the
  keys of the escape table, and for each of them the replacement returns.
\<close>

theorem renderMath_returns:
  "((\<forall>content display. renderToString content display \<noteq> None) \<longrightarrow>
      (\<exists>out. renderMath renderToString input = Some (Inr out)))
   \<and> renderMath anyEngine input \<noteq> Some (Inl (EscapeNotFound s))
   \<and> (\<forall>q\<in>set escapeSequences. \<exists>y. replacePredefinedEscapeSequences x q = Inr y)"
proof -
  obtain esc where esc: "escapeAll escapeSequences (cleanedInput input) = Inr esc"
    by (simp add: escapeAll_forward)
  obtain segs where segs: "parseDelimiters esc = Some segs"
    using acceptedMatches_facts [of esc] by blast
  have r: "renderMath k input = Some (renderSegments k segs [])" for k
    by (simp add: renderMath_def esc segs)
  have "\<exists>out. renderMath renderToString input = Some (Inr out)"
    if "\<forall>content display. renderToString content display \<noteq> None"
    using renderSegments_total [of renderToString segs "[]"] that by (simp add: r)
  moreover have "renderMath anyEngine input \<noteq> Some (Inl (EscapeNotFound s))"
    using renderSegments_error [of anyEngine segs "[]" "EscapeNotFound s"] by (auto simp: r)
  ultimately show ?thesis using escapes_keys by blast
qed

theorem renderMath_returns_witness:
  "renderMath (\<lambda>content display. Some content) (lit ''$x$'') = Some (Inr (lit ''x''))
   \<and> renderMath (\<lambda>content display. None) (lit ''$x$'') = Some (Inl EngineError)
   \<and> replacePredefinedEscapeSequences (lit ''a'') [BACKSLASH, DOLLAR] = Inr (lit ''a'')"
  using renderMath_returns [of "\<lambda>content display. Some content" "lit ''$x$''" _ _ "lit ''a''"]
  by (simp add: parse_eval render_eval improveErrorMessage_def replaceErrorPrefix.simps
      katexErrorPrefix_def)

section \<open>The accepted matches\<close>

text \<open>
  Claim C4: for every input the matches accepted by the sweep are candidates, are sorted by
  start offset and do not overlap: each accepted match starts at or after the end of every
  match accepted before it. A candidate other than an accepted match whose start lies inside
  the span of that accepted match is not accepted. For \<^verbatim>\<open>$$ a $b$ c $$\<close> the result
  is one display math segment with content \<^verbatim>\<open> a $b$ c \<close>.
\<close>

theorem accepted_sorted_disjoint:
  "(\<exists>raw fm. allRawMatches delimiters input = Some raw \<and> acceptedMatches input = Some fm
      \<and> set fm \<subseteq> set raw
      \<and> sorted (map m_start fm)
      \<and> sorted_wrt (\<lambda>a b. m_end a \<le> m_start b) fm
      \<and> (\<forall>a\<in>set fm. \<forall>c\<in>set raw.
            c \<noteq> a \<and> m_start a \<le> m_start c \<and> m_start c < m_end a \<longrightarrow> c \<notin> set fm))
   \<and> parseDelimiters (lit ''$$ a $b$ c $$'')
       = Some [\<lparr>seg_type = Math, seg_display = True, seg_content = lit '' a $b$ c ''\<rparr>]"
proof -
  obtain raw where r: "allRawMatches delimiters input = Some raw"
    "acceptedMatches input = Some (finalMatches 0 (sortMatches raw))"
    using acceptedMatches_facts [of input] by blast
  let ?fm = "finalMatches 0 (sortMatches raw)"
  note ch = accepted_chain(1) [OF r(2)]
  have pos: "m_start m < m_end m" if "m \<in> set ?fm" for m
    using accepted_chain(2) [OF r(2) that] by simp
  have sub: "set ?fm \<subseteq> set raw"
    using finalMatches_subset [of 0 "sortMatches raw"] by (simp add: sortMatches_set)
  have "sorted_wrt (\<lambda>a b. m_start a \<le> m_start b) ?fm"
  proof (rule sorted_wrt_mono_rel [OF _ ch])
    fix a b assume "a \<in> set ?fm" "m_end a \<le> m_start b"
    with pos [of a] show "m_start a \<le> m_start b" by simp
  qed
  then have so: "sorted (map m_start ?fm)" by (simp add: sorted_map)
  have un: "\<forall>a\<in>set ?fm. \<forall>c\<in>set raw.
            c \<noteq> a \<and> m_start a \<le> m_start c \<and> m_start c < m_end a \<longrightarrow> c \<notin> set ?fm"
    using chain_unique [OF ch pos] by blast
  have "parseDelimiters (lit ''$$ a $b$ c $$'')
       = Some [\<lparr>seg_type = Math, seg_display = True, seg_content = lit '' a $b$ c ''\<rparr>]"
    by (simp add: parse_eval)
  with r sub so ch un show ?thesis by blast
qed

theorem accepted_sorted_disjoint_witness:
  "allRawMatches delimiters (lit ''$$a$$'')
     = Some [\<lparr>m_display = True, m_content = lit ''a'', m_start = 0, m_end = 5\<rparr>,
             \<lparr>m_display = False, m_content = [], m_start = 0, m_end = 2\<rparr>,
             \<lparr>m_display = False, m_content = [], m_start = 3, m_end = 5\<rparr>]
   \<and> acceptedMatches (lit ''$$a$$'')
     = Some [\<lparr>m_display = True, m_content = lit ''a'', m_start = 0, m_end = 5\<rparr>]
   \<and> \<lparr>m_display = False, m_content = [], m_start = 3, m_end = 5\<rparr>
       \<notin> set (the (acceptedMatches (lit ''$$a$$'')))"
  using accepted_sorted_disjoint [of "lit ''$$a$$''"] by (simp add: parse_eval)

text \<open>
  Claim C5: the sort keeps the candidates and orders them by start offset ascending, with
  ties broken by span length descending. Of two candidates of an input that start at the
  same offset the shorter one is never accepted. For \<^verbatim>\<open>$$a$$\<close> the result is one
  display math segment with content \<^verbatim>\<open>a\<close>.
\<close>

theorem longer_span_preferred:
  "mset (sortMatches ms) = mset ms
   \<and> sorted_wrt (\<lambda>a b. m_start a < m_start b
        \<or> (m_start a = m_start b
            \<and> int (m_end b) - int (m_start b) \<le> int (m_end a) - int (m_start a)))
       (sortMatches ms)
   \<and> (\<exists>raw fm. allRawMatches delimiters input = Some raw \<and> acceptedMatches input = Some fm
        \<and> (\<forall>a\<in>set raw. \<forall>b\<in>set raw.
              m_start a = m_start b \<and> m_end b < m_end a \<longrightarrow> b \<notin> set fm))
   \<and> parseDelimiters (lit ''$$a$$'')
       = Some [\<lparr>seg_type = Math, seg_display = True, seg_content = lit ''a''\<rparr>]"
proof -
  have "sorted_wrt (\<lambda>a b. m_start a < m_start b
        \<or> (m_start a = m_start b
            \<and> int (m_end b) - int (m_start b) \<le> int (m_end a) - int (m_start a)))
       (sortMatches ms)"
    using sortMatches_sorted [of ms] by (simp add: compareMatches_le)
  moreover have "\<exists>raw fm. allRawMatches delimiters input = Some raw
        \<and> acceptedMatches input = Some fm
        \<and> (\<forall>a\<in>set raw. \<forall>b\<in>set raw.
              m_start a = m_start b \<and> m_end b < m_end a \<longrightarrow> b \<notin> set fm)"
  proof -
    obtain raw where r: "allRawMatches delimiters input = Some raw"
      "acceptedMatches input = Some (finalMatches 0 (sortMatches raw))"
      "\<And>m. m \<in> set raw \<Longrightarrow> m_start m < m_end m \<and> m_end m \<le> length input"
      using acceptedMatches_facts [of input] by blast
    have "b \<notin> set (finalMatches 0 (sortMatches raw))"
      if "a \<in> set raw" "m_start a = m_start b" "m_end b < m_end a" for a b
    proof (rule finalMatches_prefers [OF sortMatches_sorted])
      show "m \<in> set (sortMatches raw) \<Longrightarrow> m_start m < m_end m" for m
        using r(3) [of m] by (simp add: sortMatches_set)
      show "a \<in> set (sortMatches raw)" using that by (simp add: sortMatches_set)
    qed (use that in auto)
    with r(1,2) show ?thesis by blast
  qed
  moreover have "parseDelimiters (lit ''$$a$$'')
       = Some [\<lparr>seg_type = Math, seg_display = True, seg_content = lit ''a''\<rparr>]"
    by (simp add: parse_eval)
  ultimately show ?thesis by (simp add: sortMatches_mset)
qed

theorem longer_span_preferred_witness:
  "sortMatches [\<lparr>m_display = False, m_content = [], m_start = 3, m_end = 5\<rparr>,
                \<lparr>m_display = False, m_content = [], m_start = 0, m_end = 2\<rparr>,
                \<lparr>m_display = True, m_content = lit ''a'', m_start = 0, m_end = 5\<rparr>]
     = [\<lparr>m_display = True, m_content = lit ''a'', m_start = 0, m_end = 5\<rparr>,
        \<lparr>m_display = False, m_content = [], m_start = 0, m_end = 2\<rparr>,
        \<lparr>m_display = False, m_content = [], m_start = 3, m_end = 5\<rparr>]
   \<and> allRawMatches delimiters (lit ''$$a$$'')
     = Some [\<lparr>m_display = True, m_content = lit ''a'', m_start = 0, m_end = 5\<rparr>,
             \<lparr>m_display = False, m_content = [], m_start = 0, m_end = 2\<rparr>,
             \<lparr>m_display = False, m_content = [], m_start = 3, m_end = 5\<rparr>]
   \<and> \<lparr>m_display = False, m_content = [], m_start = 0, m_end = 2\<rparr>
       \<notin> set (the (acceptedMatches (lit ''$$a$$'')))"
  using longer_span_preferred
    [of "[\<lparr>m_display = False, m_content = [], m_start = 3, m_end = 5\<rparr>,
          \<lparr>m_display = False, m_content = [], m_start = 0, m_end = 2\<rparr>,
          \<lparr>m_display = True, m_content = lit ''a'', m_start = 0, m_end = 5\<rparr>]"
        "lit ''$$a$$''"]
  by (simp add: parse_eval)

section \<open>Escapes, newlines and the engine\<close>

text \<open>
  Claim C6: for the input backslash, dollar, \<^verbatim>\<open>5\<close> the call returns \<^verbatim>\<open>$5\<close>,
  whatever the engine is; it returns \<^verbatim>\<open>$5\<close> even with an engine that throws on every
  call, so the engine is not invoked.
\<close>

theorem escaped_dollar_round_trip:
  "renderMath renderToString (BACKSLASH # lit ''$5'') = Some (Inr (lit ''$5''))
   \<and> renderMath (\<lambda>content display. None) (BACKSLASH # lit ''$5'') = Some (Inr (lit ''$5''))"
  by (simp add: parse_eval render_eval)

text \<open>
  Claim C7 says that for the input \<^verbatim>\<open>a\<close>, newline, \<^verbatim>\<open>b $x\<close>, newline,
  \<^verbatim>\<open>y$ c\<close> the two newlines outside the math span become break tokens. The input has
  two newlines in all, and one of them lies in the math span: the text segments hold one
  newline, and the output has one break.
\<close>

theorem newline_count_counterexample:
  "parseDelimiters (lit ''a\<newline>b $x\<newline>y$ c'')
     = Some [\<lparr>seg_type = Text, seg_display = False, seg_content = lit ''a\<newline>b ''\<rparr>,
             \<lparr>seg_type = Math, seg_display = False, seg_content = lit ''x\<newline>y''\<rparr>,
             \<lparr>seg_type = Text, seg_display = False, seg_content = lit '' c''\<rparr>]
   \<and> count_list (lit ''a\<newline>b '' @ lit '' c'') NEWLINE = 1
   \<and> count_list (lit ''a\<newline>b $x\<newline>y$ c'') NEWLINE = 2
   \<and> renderMath (\<lambda>content display. Some []) (lit ''a\<newline>b $x\<newline>y$ c'')
       = Some (Inr (lit ''a'' @ latexBreak @ lit ''b  c''))"
  by (simp add: parse_eval render_eval improveErrorMessage_def replaceErrorPrefix.simps)

text \<open>
  Claim C7, amended: the conversion replaces every newline by a space, four backslashes and
  a space and leaves every other code unit as it is. In \<^verbatim>\<open>renderMath\<close> a text segment is
  converted first and its placeholders are reverted afterwards; the content of a math
  segment is not converted. For the input \<^verbatim>\<open>a\<close>, newline, \<^verbatim>\<open>b $x\<close>, newline,
  \<^verbatim>\<open>y$ c\<close> the one newline outside the math span becomes a break, and the engine
  receives the math content \<^verbatim>\<open>x\<close>, newline, \<^verbatim>\<open>y\<close> with its newline.
\<close>

theorem newline_breaks_in_text_only:
  "convertNewlinesToLatexBreaks s = concat (map (\<lambda>c. if c = NEWLINE then latexBreak else [c]) s)
   \<and> latexBreak = [0x20, BACKSLASH, BACKSLASH, BACKSLASH, BACKSLASH, 0x20]
   \<and> renderSegments renderToString
         [\<lparr>seg_type = Text, seg_display = False, seg_content = s\<rparr>] []
       = Inr (unescapeCharacters (convertNewlinesToLatexBreaks s))
   \<and> renderSegments renderToString
         [\<lparr>seg_type = Math, seg_display = display, seg_content = s\<rparr>] []
       = (case renderToString (revertEscapedCharacters s) display of
            None \<Rightarrow> Inl EngineError
          | Some html \<Rightarrow> Inr (improveErrorMessage html))
   \<and> renderMath renderToString (lit ''a\<newline>b $x\<newline>y$ c'')
     = Some (case renderToString (lit ''x\<newline>y'') False of
               None \<Rightarrow> Inl EngineError
             | Some html \<Rightarrow>
                 Inr (lit ''a'' @ latexBreak @ lit ''b '' @ improveErrorMessage html @ lit '' c''))"
proof -
  have "convertNewlinesToLatexBreaks s
          = concat (map (\<lambda>c. if c = NEWLINE then latexBreak else [c]) s)"
    by (induction s) (simp_all add: convertNewlines_Nil convertNewlines_Cons)
  moreover have "latexBreak = [0x20, BACKSLASH, BACKSLASH, BACKSLASH, BACKSLASH, 0x20]"
    by (simp add: latexBreak_def lit_def)
  moreover have "renderSegments renderToString
         [\<lparr>seg_type = Text, seg_display = False, seg_content = s\<rparr>] []
       = Inr (unescapeCharacters (convertNewlinesToLatexBreaks s))"
    by simp
  moreover have "renderSegments renderToString
         [\<lparr>seg_type = Math, seg_display = display, seg_content = s\<rparr>] []
       = (case renderToString (revertEscapedCharacters s) display of
            None \<Rightarrow> Inl EngineError
          | Some html \<Rightarrow> Inr (improveErrorMessage html))"
    by (simp split: option.split)
  moreover have "renderMath renderToString (lit ''a\<newline>b $x\<newline>y$ c'')
     = Some (case renderToString (lit ''x\<newline>y'') False of
               None \<Rightarrow> Inl EngineError
             | Some html \<Rightarrow>
                 Inr (lit ''a'' @ latexBreak @ lit ''b '' @ improveErrorMessage html @ lit '' c''))"
    by (simp add: parse_eval render_eval split: option.split)
  ultimately show ?thesis by blast
qed

section \<open>Unterminated, empty and empty-bodied input\<close>

text \<open>
  Claim C8 says that an input with a start token that no end token follows degrades to plain
  text. In \<^verbatim>\<open>$$a\<close> the start token \<^verbatim>\<open>$$\<close> at offset 0 has no \<^verbatim>\<open>$$\<close> after it,
  but the inline delimiter matches the two dollar signs: the result is an empty inline math
  segment and the text \<^verbatim>\<open>a\<close>, not one text segment.
\<close>

theorem unterminated_counterexample:
  "prefix (lit ''$$'') (lit ''$$a'')
   \<and> \<not> sublist (lit ''$$'') (drop 2 (lit ''$$a''))
   \<and> parseDelimiters (lit ''$$a'')
       = Some [\<lparr>seg_type = Math, seg_display = False, seg_content = []\<rparr>,
               \<lparr>seg_type = Text, seg_display = False, seg_content = lit ''a''\<rparr>]
   \<and> parseDelimiters (lit ''$$a'')
       \<noteq> Some [\<lparr>seg_type = Text, seg_display = False, seg_content = lit ''$$a''\<rparr>]"
  by (simp add: parse_eval sublist_code)

text \<open>
  Claim C8, amended: when the end token of a delimiter of the table does not occur in the
  input after a start token at offset \<open>i\<close>, the scan of that delimiter returns and none of
  its candidates starts at \<open>i\<close>; another delimiter may still match there. When no start
  token of any delimiter of the table is followed by its end token, there is no candidate
  at all and a non-empty input gives exactly one text segment with the whole input. The
  inputs \<^verbatim>\<open>text with unclosed $ delimiter\<close> and \<^verbatim>\<open>mismatched\<close>, space, backslash,
  \<^verbatim>\<open>( delimiters\<close>, space, backslash, \<^verbatim>\<open>]\<close> each give one text segment with the whole
  input.
\<close>

theorem unterminated_is_text:
  "(d \<in> set delimiters \<and> \<not> sublist (d_end d) (drop (i + length (d_start d)) input) \<longrightarrow>
      (\<exists>ms. execLoop d input 0 = Some ms \<and> (\<forall>m\<in>set ms. m_start m \<noteq> i)))
   \<and> ((\<forall>d\<in>set delimiters. \<forall>i. prefix (d_start d) (drop i input) \<longrightarrow>
          \<not> sublist (d_end d) (drop (i + length (d_start d)) input)) \<and> input \<noteq> [] \<longrightarrow>
        allRawMatches delimiters input = Some []
        \<and> parseDelimiters input
            = Some [\<lparr>seg_type = Text, seg_display = False, seg_content = input\<rparr>])
   \<and> parseDelimiters (lit ''text with unclosed $ delimiter'')
     = Some [\<lparr>seg_type = Text, seg_display = False,
              seg_content = lit ''text with unclosed $ delimiter''\<rparr>]
   \<and> parseDelimiters (lit ''mismatched '' @ BACKSLASH # lit ''( delimiters '' @ BACKSLASH # lit '']'')
     = Some [\<lparr>seg_type = Text, seg_display = False,
              seg_content = lit ''mismatched '' @ BACKSLASH # lit ''( delimiters ''
                              @ BACKSLASH # lit '']''\<rparr>]"
proof -
  have "\<exists>ms. execLoop d input 0 = Some ms \<and> (\<forall>m\<in>set ms. m_start m \<noteq> i)"
    if d: "d \<in> set delimiters"
      and no: "\<not> sublist (d_end d) (drop (i + length (d_start d)) input)"
  proof -
    from delimiters_execLoop [OF d, of input 0] obtain ms where
      ms: "execLoop d input 0 = Some ms"
      "\<And>m. m \<in> set ms \<Longrightarrow> matchOf d (d_start d) (d_end d) input m"
      by blast
    have "m_start m \<noteq> i" if "m \<in> set ms" for m
    proof
      assume i: "m_start m = i"
      from ms(2) [OF that] have
        "i + length (d_start d) \<le> m_end m - length (d_end d)"
        "prefix (d_end d) (drop (m_end m - length (d_end d)) input)"
        by (auto simp: matchOf_def i)
      then have "sublist (d_end d) (drop (i + length (d_start d)) input)"
        by (intro prefix_drop_sublist)
      with no show False by simp
    qed
    with ms(1) show ?thesis by blast
  qed
  moreover have "allRawMatches delimiters input = Some []
        \<and> parseDelimiters input
            = Some [\<lparr>seg_type = Text, seg_display = False, seg_content = input\<rparr>]"
    if h: "\<forall>d\<in>set delimiters. \<forall>i. prefix (d_start d) (drop i input) \<longrightarrow>
          \<not> sublist (d_end d) (drop (i + length (d_start d)) input)"
      and ne: "input \<noteq> []"
  proof -
    from no_candidates [OF h] have r: "allRawMatches delimiters input = Some []" .
    with ne show ?thesis
      by (simp add: parseDelimiters_def acceptedMatches_def sortMatches_def substring_def)
  qed
  moreover have "parseDelimiters (lit ''text with unclosed $ delimiter'')
     = Some [\<lparr>seg_type = Text, seg_display = False,
              seg_content = lit ''text with unclosed $ delimiter''\<rparr>]"
    by (simp add: parse_eval)
  moreover have
    "parseDelimiters (lit ''mismatched '' @ BACKSLASH # lit ''( delimiters '' @ BACKSLASH # lit '']'')
     = Some [\<lparr>seg_type = Text, seg_display = False,
              seg_content = lit ''mismatched '' @ BACKSLASH # lit ''( delimiters ''
                              @ BACKSLASH # lit '']''\<rparr>]"
    by (simp add: parse_eval)
  ultimately show ?thesis by blast
qed

theorem unterminated_is_text_witness:
  "delimiters ! 1 \<in> set delimiters
   \<and> prefix (d_start (delimiters ! 1)) (drop 1 (lit ''a$b''))
   \<and> \<not> sublist (d_end (delimiters ! 1)) (drop (1 + length (d_start (delimiters ! 1))) (lit ''a$b''))
   \<and> execLoop (delimiters ! 1) (lit ''a$b'') 0 = Some []
   \<and> allRawMatches delimiters (lit ''a$b'') = Some []
   \<and> parseDelimiters (lit ''a$b'')
       = Some [\<lparr>seg_type = Text, seg_display = False, seg_content = lit ''a$b''\<rparr>]"
proof -
  have h1: "delimiters ! 1 \<in> set delimiters
   \<and> \<not> sublist (d_end (delimiters ! 1)) (drop (1 + length (d_start (delimiters ! 1))) (lit ''a$b''))"
    by (simp add: delimiters_def lit_def sublist_code)
  have p: "prefix (d_start (delimiters ! 1)) (drop 1 (lit ''a$b''))"
    by (simp add: delimiters_def lit_def)
  have h2: "\<forall>d\<in>set delimiters. \<forall>i. prefix (d_start d) (drop i (lit ''a$b'')) \<longrightarrow>
          \<not> sublist (d_end d) (drop (i + length (d_start d)) (lit ''a$b''))"
  proof (intro ballI allI)
    fix d and i :: nat assume d: "d \<in> set delimiters"
    consider "i = 0" | "i = 1" | "i = 2" | "3 \<le> i" by linarith
    then show "prefix (d_start d) (drop i (lit ''a$b'')) \<longrightarrow>
          \<not> sublist (d_end d) (drop (i + length (d_start d)) (lit ''a$b''))"
      using d
      by cases (auto simp: delimiters_def lit_def sublist_code BACKSLASH_def)
  qed
  have ne: "lit ''a$b'' \<noteq> []" by (simp add: lit_def)
  have e: "execLoop (delimiters ! 1) (lit ''a$b'') 0 = Some []"
    by (simp add: parse_eval)
  from h1 p h2 ne e unterminated_is_text [of "delimiters ! 1" 1 "lit ''a$b''"] show ?thesis by simp
qed

text \<open>
  Claim C9: for the empty string the result is the empty list of segments, not a list with
  one empty text segment.
\<close>

theorem empty_input_no_segments:
  "parseDelimiters [] = Some []
   \<and> parseDelimiters [] \<noteq> Some [\<lparr>seg_type = Text, seg_display = False, seg_content = []\<rparr>]"
  by (simp add: parse_eval)

text \<open>
  Claim C10: for the input of exactly two dollar signs the result is one inline math
  segment with empty content, and \<^verbatim>\<open>renderMath\<close> hands the empty string to the engine in
  inline mode.
\<close>

theorem empty_body_is_math:
  "parseDelimiters (lit ''$$'')
     = Some [\<lparr>seg_type = Math, seg_display = False, seg_content = []\<rparr>]
   \<and> renderMath renderToString (lit ''$$'')
     = Some (case renderToString [] False of
               None \<Rightarrow> Inl EngineError
             | Some html \<Rightarrow> Inr (improveErrorMessage html))"
  by (simp add: parse_eval render_eval split: option.split)

end
